theory Spec2Isabelle
  imports Main "HOL-Library.AList"
begin

section \<open>Canonical defect model\<close>

text \<open>
  Modelled from the spec: the types \<^verbatim>\<open>Defect\<close> and \<^verbatim>\<open>DefEvent\<close>, whose headers are not part of
  the sources at hand. A \<^verbatim>\<open>DefEvent\<close> carries \<^verbatim>\<open>fileName\<close>, \<^verbatim>\<open>line\<close>, \<^verbatim>\<open>column\<close> (0 = unknown),
  \<^verbatim>\<open>event\<close> and \<^verbatim>\<open>msg\<close>; a \<^verbatim>\<open>Defect\<close> carries \<^verbatim>\<open>defClass\<close>, the ordered \<^verbatim>\<open>events\<close> (the
  first one is the key event) and \<^verbatim>\<open>cwe\<close> (0 = none). \<^verbatim>\<open>linkify.cc\<close> names the event list
  \<^verbatim>\<open>msgs\<close> and its element type \<^verbatim>\<open>DefMsg\<close>.
\<close>

record DefEvent =
  fileName :: string
  line :: int
  column :: int
  event :: string
  msg :: string

record Defect =
  defClass :: string
  events :: "DefEvent list"
  cwe :: int

type_synonym DefMsg = DefEvent

abbreviation msgs :: "Defect \<Rightarrow> DefMsg list" where
  "msgs \<equiv> events"

text \<open>
  Modelled from the spec: the constructors \<^verbatim>\<open>DefEvent()\<close> and \<^verbatim>\<open>Defect(defClass)\<close> of the same
  headers: empty texts, no events, and 0 for line, column and \<^verbatim>\<open>cwe\<close>.
\<close>

definition DefEvent_new :: DefEvent where
  "DefEvent_new = \<lparr>fileName = [], line = 0, column = 0, event = [], msg = []\<rparr>"

definition Defect_new :: "string \<Rightarrow> Defect" where
  "Defect_new cls = \<lparr>defClass = cls, events = [], cwe = 0\<rparr>"

text \<open>
  What the C++ leaves undefined or raises, as values: \<^verbatim>\<open>front()\<close> of an empty container,
  a call through a null \<^verbatim>\<open>unique_ptr\<close>, and a \<^verbatim>\<open>pt::ptree_error\<close> with its message.
\<close>

datatype error = front_of_empty | null_dereference | ptree_error string

section \<open>Defect correlation queue (linkify.cc, class DefQueue)\<close>

text \<open>
  The two nested \<^verbatim>\<open>std::map\<close>s are association lists read through \<open>map_of\<close>:
  \<^verbatim>\<open>find\<close> is \<open>map_of\<close>, \<^verbatim>\<open>erase\<close> is \<open>AList.delete\<close>, a write through \<^verbatim>\<open>operator[]\<close> or
  through a reference into the map is \<open>AList.update\<close>, \<^verbatim>\<open>empty()\<close> compares with \<open>[]\<close>.
\<close>

type_synonym TDefList = "Defect list"
type_synonym TDefByFile = "(string \<times> TDefList) list"
type_synonym TDefByClass = "(string \<times> TDefByFile) list"

text \<open>
  \<^verbatim>\<open>MsgFilter::filterPath\<close> is defined outside the sources at hand; it is the parameter
  \<open>filterPath\<close> of both operations (the same singleton at both ends).
  \<^verbatim>\<open>stor_[k]\<close> and \<^verbatim>\<open>row[k]\<close> create an empty entry when the key is absent.
\<close>

definition hashDefect :: "(string \<Rightarrow> string) \<Rightarrow> Defect \<Rightarrow> TDefByClass \<Rightarrow> error + TDefByClass" where
  "hashDefect filterPath def stor =
     (let row = (case map_of stor (defClass def) of None \<Rightarrow> [] | Some r \<Rightarrow> r) in
      case msgs def of
        [] \<Rightarrow> Inl front_of_empty
      | m # _ \<Rightarrow>
          (let path = filterPath (fileName m);
               col = (case map_of row path of None \<Rightarrow> [] | Some c \<Rightarrow> c)
           in Inr (AList.update (defClass def) (AList.update path (col @ [def]) row) stor)))"

text \<open>
  \<^verbatim>\<open>lookup\<close> returns \<^verbatim>\<open>false\<close> (here \<open>None\<close>, the queue unchanged) or \<^verbatim>\<open>true\<close> with the
  defect written to \<^verbatim>\<open>dst\<close>. The second emptiness test of the source is again on the row.
\<close>

definition lookup ::
  "(string \<Rightarrow> string) \<Rightarrow> TDefByClass \<Rightarrow> string \<Rightarrow> string \<Rightarrow> error + (Defect option \<times> TDefByClass)" where
  "lookup filterPath stor checker fName =
     (case map_of stor checker of
        None \<Rightarrow> Inr (None, stor)
      | Some row \<Rightarrow>
          if row = [] then Inr (None, stor)
          else
            (let path = filterPath fName in
             case map_of row path of
               None \<Rightarrow> Inr (None, stor)
             | Some col \<Rightarrow>
                 if row = [] then Inr (None, stor)
                 else
                   (case col of
                      [] \<Rightarrow> Inl front_of_empty
                    | d # col' \<Rightarrow>
                        if col' = [] then
                          (let row' = AList.delete path row in
                           if row' = [] then Inr (Some d, AList.delete checker stor)
                           else Inr (Some d, AList.update checker row' stor))
                        else
                          Inr (Some d, AList.update checker (AList.update path col' row) stor))))"

definition DefQueue_empty :: "TDefByClass \<Rightarrow> bool" where
  "DefQueue_empty stor = (stor = [])"

text \<open>The defects queued under a key, oldest first (no list when a key is absent).\<close>

definition queued :: "TDefByClass \<Rightarrow> string \<Rightarrow> string \<Rightarrow> Defect list" where
  "queued stor cls path =
     (case map_of stor cls of
        None \<Rightarrow> []
      | Some row \<Rightarrow> (case map_of row path of None \<Rightarrow> [] | Some col \<Rightarrow> col))"

text \<open>A present key, outer or inner, maps to a non-empty container.\<close>

definition no_empty_container :: "TDefByClass \<Rightarrow> bool" where
  "no_empty_container stor =
     list_all (\<lambda>(cls, row). row \<noteq> [] \<and> list_all (\<lambda>(path, col). col \<noteq> []) row) stor"

text \<open>The loop of \<^verbatim>\<open>main\<close> that files every parsed defect.\<close>

fun hashDefects :: "(string \<Rightarrow> string) \<Rightarrow> Defect list \<Rightarrow> TDefByClass \<Rightarrow> error + TDefByClass" where
  "hashDefects filterPath [] stor = Inr stor"
| "hashDefects filterPath (def # defs) stor =
     (case hashDefect filterPath def stor of
        Inl e \<Rightarrow> Inl e
      | Inr stor' \<Rightarrow> hashDefects filterPath defs stor')"

section \<open>Query stream parser (linkify.cc, class DefQueryParser)\<close>

text \<open>
  \<^verbatim>\<open>boost::split(tokens, line, is_any_of(","))\<close> without token compression: every comma
  ends a token, so a line with \<open>n\<close> commas has \<open>n + 1\<close> tokens (an empty line has one).
\<close>

fun split_commas :: "string \<Rightarrow> string list" where
  "split_commas [] = [[]]"
| "split_commas (c # cs) =
     (if c = CHR '','' then [] # split_commas cs
      else (case split_commas cs of [] \<Rightarrow> [[c]] | t # ts \<Rightarrow> (c # t) # ts))"

text \<open>
  \<^verbatim>\<open>boost::lexical_cast<int>\<close>: an optional sign and at least one decimal digit, nothing
  else, and a value that fits a 32-bit \<^verbatim>\<open>int\<close>; \<open>None\<close> stands for \<^verbatim>\<open>bad_lexical_cast\<close>.
\<close>

definition is_digit :: "char \<Rightarrow> bool" where
  "is_digit c = (c \<in> set ''0123456789'')"

definition digit_value :: "char \<Rightarrow> int" where
  "digit_value c = of_char c - 48"

fun digits_value :: "int \<Rightarrow> string \<Rightarrow> int option" where
  "digits_value acc [] = Some acc"
| "digits_value acc (c # cs) =
     (if is_digit c then digits_value (10 * acc + digit_value c) cs else None)"

definition lexical_cast_int :: "string \<Rightarrow> int option" where
  "lexical_cast_int s =
     (let neg = (take 1 s = ''-'');
          ds = (if take 1 s = ''-'' \<or> take 1 s = ''+'' then drop 1 s else s)
      in if ds = [] then None
         else (case digits_value 0 ds of
                 None \<Rightarrow> None
               | Some n \<Rightarrow>
                   (let v = (if neg then - n else n)
                    in if - 2147483648 \<le> v \<and> v \<le> 2147483647 then Some v else None)))"

record QRow =
  cid :: int
  row_defClass :: string
  row_fileName :: string

text \<open>The diagnostics written to \<^verbatim>\<open>std::cerr\<close>, with the numbers they print.\<close>

datatype message =
    not_enough_commas int
  | failed_to_parse_CID int
  | defect_lookup_failed int
  | offset_detected
  | undocumented_usage
  | failed_to_open_input_file
  | failed_to_read_defect int string

text \<open>
  The parser with the standard streams it works on: \<open>cin\<close> holds the lines of
  \<^verbatim>\<open>std::cin\<close> not read yet, \<open>cin_fail\<close> its failbit (\<^verbatim>\<open>std::getline\<close> sets it when no
  line is left, and \<^verbatim>\<open>while (std::cin)\<close> tests it), \<open>cerr\<close> what was written to
  \<^verbatim>\<open>std::cerr\<close>.
\<close>

record DefQueryParser =
  cin :: "string list"
  cin_fail :: bool
  lineno :: int
  hasError :: bool
  cerr :: "message list"

definition DefQueryParser_new :: "string list \<Rightarrow> DefQueryParser" where
  "DefQueryParser_new input =
     \<lparr>cin = input, cin_fail = False, lineno = 0, hasError = False, cerr = []\<rparr>"

definition parse :: "DefQueryParser \<Rightarrow> QRow option \<times> DefQueryParser" where
  "parse p =
     (if cin_fail p then (None, p)
      else
        (case cin p of
           [] \<Rightarrow> (None, p\<lparr>cin_fail := True\<rparr>)
         | ln # rest \<Rightarrow>
             (let p1 = p\<lparr>cin := rest, lineno := lineno p + 1\<rparr>;
                  tokens = split_commas ln
              in if length tokens < 3 then
                   (None, p1\<lparr>cerr := cerr p1 @ [not_enough_commas (lineno p1)]\<rparr>)
                 else
                   (case lexical_cast_int (tokens ! 0) of
                      None \<Rightarrow> (None, p1\<lparr>cerr := cerr p1 @ [failed_to_parse_CID (lineno p1)]\<rparr>)
                    | Some c \<Rightarrow>
                        (Some \<lparr>cid = c, row_defClass = tokens ! 1, row_fileName = tokens ! 2\<rparr>,
                         p1)))))"

function DefQueryParser_getNext :: "DefQueryParser \<Rightarrow> QRow option \<times> DefQueryParser" where
  "DefQueryParser_getNext p =
     (if cin_fail p then (None, p)
      else
        (case parse p of
           (Some row, p') \<Rightarrow> (Some row, p')
         | (None, p') \<Rightarrow> DefQueryParser_getNext (p'\<lparr>hasError := True\<rparr>)))"
  by pat_completeness auto
termination
  by (relation "measure (\<lambda>p. length (cin p) + (if cin_fail p then 0 else 1))")
     (auto simp: parse_def Let_def split: if_splits list.splits option.splits)

section \<open>The program (linkify.cc, main)\<close>

text \<open>
  The loop over the queries: a failed lookup is reported and the row kept for the separate
  section, a found defect is written out with the row's identifier.
\<close>

function query_loop ::
  "(string \<Rightarrow> string) \<Rightarrow> TDefByClass \<Rightarrow> DefQueryParser \<Rightarrow> QRow list \<Rightarrow> (Defect \<times> int) list \<Rightarrow>
   error + (TDefByClass \<times> DefQueryParser \<times> QRow list \<times> (Defect \<times> int) list)" where
  "query_loop filterPath stor qParser unmatched out =
     (case DefQueryParser_getNext qParser of
        (None, p) \<Rightarrow> Inr (stor, p, unmatched, out)
      | (Some row, p) \<Rightarrow>
          (case lookup filterPath stor (row_defClass row) (row_fileName row) of
             Inl e \<Rightarrow> Inl e
           | Inr (None, stor') \<Rightarrow>
               query_loop filterPath stor'
                 (p\<lparr>cerr := cerr p @ [defect_lookup_failed (cid row)]\<rparr>) (unmatched @ [row]) out
           | Inr (Some def, stor') \<Rightarrow>
               query_loop filterPath stor' p unmatched (out @ [(def, cid row)])))"
  by pat_completeness auto
termination
proof (relation "measure (\<lambda>(filterPath, stor, qParser, unmatched, out). length (cin qParser))")
  have shorter: "length (cin p') < length (cin p)"
    if "DefQueryParser_getNext p = (Some row, p')" for p p' row
    using that
  proof (induction p rule: DefQueryParser_getNext.induct)
    case (1 p)
    then show ?case
      by (subst (asm) (2) DefQueryParser_getNext.simps)
         (auto simp: parse_def Let_def split: if_splits list.splits option.splits prod.splits)
  qed
  show "wf (measure (\<lambda>(filterPath, stor, qParser, unmatched, out). length (cin qParser)))"
    by simp
  show "((filterPath, stor', p\<lparr>cerr := cerr p @ [defect_lookup_failed (cid row)]\<rparr>,
          unmatched @ [row], out),
         (filterPath, stor, qParser, unmatched, out))
        \<in> measure (\<lambda>(filterPath, stor, qParser, unmatched, out). length (cin qParser))"
    if "(x, p) = DefQueryParser_getNext qParser" "x = Some row"
    for filterPath stor qParser unmatched out x p row stor'
    using that shorter[of qParser row p] by simp
  show "((filterPath, stor', p, unmatched, out @ [(def, cid row)]),
         (filterPath, stor, qParser, unmatched, out))
        \<in> measure (\<lambda>(filterPath, stor, qParser, unmatched, out). length (cin qParser))"
    if "(x, p) = DefQueryParser_getNext qParser" "x = Some row"
    for filterPath stor qParser unmatched out x p row stor' "def"
    using that shorter[of qParser row p] by simp
qed

text \<open>
  What a run leaves behind: the exit status, the (defect, identifier) pairs written out,
  the rows of the section for unmatched queries, the queue as the run leaves it, the three
  operands of the disjunction that \<^verbatim>\<open>main\<close> returns (\<open>False\<close> when the run is aborted before
  they exist), and what went to \<^verbatim>\<open>std::cerr\<close>.
\<close>

record main_result =
  exit_status :: int
  linked :: "(Defect \<times> int) list"
  unmatched_rows :: "QRow list"
  residual :: TDefByClass
  lookupError :: bool
  qParser_hasError :: bool
  defParser_hasError :: bool
  cerr_out :: "message list"

text \<open>
  \<^verbatim>\<open>Parser defParser\<close> (csparser.hh) is not part of the sources at hand. The \<^verbatim>\<open>.err\<close> file
  is the parameter \<open>defList\<close>: \<open>None\<close> when it cannot be opened, else the defects
  \<^verbatim>\<open>defParser.getNext\<close> yields in order together with the final \<^verbatim>\<open>defParser.hasError()\<close>.
  \<open>stdin\<close> holds the lines of the query stream. \<^verbatim>\<open>EXIT_FAILURE\<close> is 1, and the final
  \<^verbatim>\<open>bool\<close> is returned as 0 or 1.
\<close>

definition main ::
  "(string \<Rightarrow> string) \<Rightarrow> nat \<Rightarrow> (Defect list \<times> bool) option \<Rightarrow> string list \<Rightarrow> error + main_result" where
  "main filterPath argc defList stdin =
     (if argc \<noteq> 4 then
        Inr \<lparr>exit_status = 1, linked = [], unmatched_rows = [], residual = [],
             lookupError = False, qParser_hasError = False, defParser_hasError = False,
             cerr_out = [undocumented_usage]\<rparr>
      else
        (case defList of
           None \<Rightarrow>
             Inr \<lparr>exit_status = 1, linked = [], unmatched_rows = [], residual = [],
                  lookupError = False, qParser_hasError = False, defParser_hasError = False,
                  cerr_out = [failed_to_open_input_file]\<rparr>
         | Some (defs, defParserError) \<Rightarrow>
             (case hashDefects filterPath defs [] of
                Inl e \<Rightarrow> Inl e
              | Inr stor \<Rightarrow>
                  (case query_loop filterPath stor (DefQueryParser_new stdin) [] [] of
                     Inl e \<Rightarrow> Inl e
                   | Inr (stor', qParser, unmatched, out) \<Rightarrow>
                       (let lookupErr = \<not> DefQueue_empty stor' in
                        Inr \<lparr>exit_status =
                               (if lookupErr \<or> hasError qParser \<or> defParserError
                                then 1 else 0),
                             linked = out,
                             unmatched_rows = unmatched,
                             residual = stor',
                             lookupError = lookupErr,
                             qParser_hasError = hasError qParser,
                             defParser_hasError = defParserError,
                             cerr_out =
                               cerr qParser @ (if lookupErr then [offset_detected] else [])\<rparr>)))))"

section \<open>JSON documents (boost::property_tree)\<close>

text \<open>
  A \<^verbatim>\<open>pt::ptree\<close> node: its own data and the ordered list of (key, child) pairs.
  \<^verbatim>\<open>read_json\<close> gives an array element the empty key and a number or string its text.
\<close>

datatype ptree = PTree (data: string) (children: "(string \<times> ptree) list")

definition ptree_find :: "ptree \<Rightarrow> string \<Rightarrow> ptree option" where
  "ptree_find node key = map_of (children node) key"

text \<open>
  Modelled from the spec: \<^verbatim>\<open>findChildOf\<close> and \<^verbatim>\<open>valueOf<T>\<close> (abstract-tree.hh, not part of
  the sources at hand). \<^verbatim>\<open>findChildOf\<close> tells whether the node has a child of that name and
  hands it out; \<^verbatim>\<open>valueOf<T>(node, key, default)\<close> is the "get optional field with typed
  default" accessor: the field's value, the default when the field is absent or, for a
  number, when its text is not an integer.
\<close>

definition findChildOf :: "ptree \<Rightarrow> string \<Rightarrow> ptree option" where
  "findChildOf node key = ptree_find node key"

definition valueOf_string :: "ptree \<Rightarrow> string \<Rightarrow> string \<Rightarrow> string" where
  "valueOf_string node key defVal =
     (case ptree_find node key of None \<Rightarrow> defVal | Some child \<Rightarrow> data child)"

definition valueOf_int :: "ptree \<Rightarrow> string \<Rightarrow> int \<Rightarrow> int" where
  "valueOf_int node key defVal =
     (case ptree_find node key of
        None \<Rightarrow> defVal
      | Some child \<Rightarrow> (case lexical_cast_int (data child) of None \<Rightarrow> defVal | Some v \<Rightarrow> v))"

section \<open>Tree decoders (parser-json.cc)\<close>

datatype TreeDecoder =
    SimpleTreeDecoder
  | CovTreeDecoder
  | SarifTreeDecoder
  | ShellCheckTreeDecoder
  | GccTreeDecoder

text \<open>
  Modelled from the spec: \<^verbatim>\<open>AbstractTreeDecoder::nextNode\<close> (abstract-tree.hh, not part of the
  sources at hand) hands out the element under the cursor and moves the cursor on, or
  signals that the collection is exhausted. The cursor is the list of elements not read yet.
\<close>

definition nextNode :: "ptree list \<Rightarrow> ptree option \<times> ptree list" where
  "nextNode defIter = (case defIter of [] \<Rightarrow> (None, []) | node # rest \<Rightarrow> (Some node, rest))"

text \<open>\<^verbatim>\<open>gccReadEvent\<close> fills the event it is given and tells whether it succeeded.\<close>

definition gccReadEvent :: "DefEvent \<Rightarrow> ptree \<Rightarrow> bool \<times> DefEvent" where
  "gccReadEvent pEvt evtNode =
     (let e1 = pEvt\<lparr>event := valueOf_string evtNode ''kind'' []\<rparr> in
      if event e1 = [] then (False, e1)
      else
        (let e2 = e1\<lparr>fileName := ''<unknown>''\<rparr>;
             e3 = (case findChildOf evtNode ''locations'' of
                     None \<Rightarrow> e2
                   | Some locs \<Rightarrow>
                       (case children locs of
                          [] \<Rightarrow> e2
                        | (k, loc0) # locs' \<Rightarrow>
                            (case findChildOf loc0 ''caret'' of
                               None \<Rightarrow> e2
                             | Some caret \<Rightarrow>
                                 e2\<lparr>fileName := valueOf_string caret ''file'' ''<unknown>'',
                                    line := valueOf_int caret ''line'' 0,
                                    column := valueOf_int caret ''byte-column'' 0\<rparr>)));
             e4 = e3\<lparr>msg := valueOf_string evtNode ''message'' ''<unknown>''\<rparr>;
             option = valueOf_string evtNode ''option'' []
         in (True, if option \<noteq> [] then e4\<lparr>msg := msg e4 @ '' ['' @ option @ '']''\<rparr> else e4)))"

text \<open>The loop of \<^verbatim>\<open>GccTreeDecoder::readNode\<close> over the items of \<^verbatim>\<open>children\<close>.\<close>

fun gccReadChildren :: "(string \<times> ptree) list \<Rightarrow> DefEvent list \<Rightarrow> DefEvent list" where
  "gccReadChildren [] evts = evts"
| "gccReadChildren ((k, evtNode) # items) evts =
     (case gccReadEvent DefEvent_new evtNode of
        (ok, evt) \<Rightarrow> gccReadChildren items (if ok then evts @ [evt] else evts))"

text \<open>
  \<^verbatim>\<open>GccPostProcessor::apply\<close> (parser-gcc.hh) is not part of the sources at hand: it is the
  parameter \<open>postProc\<close>. \<^verbatim>\<open>readNode\<close> returns \<^verbatim>\<open>false\<close> (here \<open>None\<close>) or \<^verbatim>\<open>true\<close> with the
  defect; the second component is the cursor it leaves.
\<close>

definition GccTreeDecoder_readNode ::
  "(Defect \<Rightarrow> Defect) \<Rightarrow> ptree list \<Rightarrow> Defect option \<times> ptree list" where
  "GccTreeDecoder_readNode postProc defIter =
     (case nextNode defIter of
        (None, it) \<Rightarrow> (None, it)
      | (Some defNode, it) \<Rightarrow>
          (case gccReadEvent DefEvent_new defNode of
             (ok, keyEvt) \<Rightarrow>
               if \<not> ok then (None, it)
               else
                 (let def0 = (Defect_new ''COMPILER_WARNING'')\<lparr>events := [keyEvt]\<rparr>;
                      def1 = (case findChildOf defNode ''children'' of
                                None \<Rightarrow> def0
                              | Some chld \<Rightarrow>
                                  def0\<lparr>events := gccReadChildren (children chld) (events def0)\<rparr>);
                      def2 = (case findChildOf defNode ''metadata'' of
                                None \<Rightarrow> def1
                              | Some meta \<Rightarrow> def1\<lparr>cwe := valueOf_int meta ''cwe'' 0\<rparr>)
                  in (Some (postProc def2), it))))"

definition scReadEvent :: "DefEvent \<Rightarrow> ptree \<Rightarrow> bool \<times> DefEvent" where
  "scReadEvent pEvt evtNode =
     (let e1 = pEvt\<lparr>event := valueOf_string evtNode ''level'' []\<rparr> in
      if event e1 = [] then (False, e1)
      else
        (let e2 = e1\<lparr>fileName := valueOf_string evtNode ''file'' ''<unknown>'',
                    line := valueOf_int evtNode ''line'' 0,
                    column := valueOf_int evtNode ''byte-column'' 0\<rparr>;
             e3 = e2\<lparr>msg := valueOf_string evtNode ''message'' ''<unknown>''\<rparr>;
             code = valueOf_string evtNode ''code'' []
         in (True, if code \<noteq> [] then e3\<lparr>msg := msg e3 @ '' [SC'' @ code @ '']''\<rparr> else e3)))"

definition ShellCheckTreeDecoder_readNode ::
  "(Defect \<Rightarrow> Defect) \<Rightarrow> ptree list \<Rightarrow> Defect option \<times> ptree list" where
  "ShellCheckTreeDecoder_readNode postProc defIter =
     (case nextNode defIter of
        (None, it) \<Rightarrow> (None, it)
      | (Some defNode, it) \<Rightarrow>
          (case scReadEvent DefEvent_new defNode of
             (ok, keyEvt) \<Rightarrow>
               if \<not> ok then (None, it)
               else (Some (postProc ((Defect_new ''SHELLCHECK_WARNING'')\<lparr>events := [keyEvt]\<rparr>)), it)))"

text \<open>
  Modelled from the spec: \<^verbatim>\<open>readNode\<close> of the decoders of the other three formats, which are
  defined in files that are not part of the sources at hand. Each of them advances the
  cursor and attempts to decode the element it was on; how it decodes that element is the
  parameter \<open>other\<close>, which may raise a \<^verbatim>\<open>ptree_error\<close>.
\<close>

definition other_readNode ::
  "(TreeDecoder \<Rightarrow> ptree \<Rightarrow> error + Defect option) \<Rightarrow>
   TreeDecoder \<Rightarrow> ptree list \<Rightarrow> (error + Defect option) \<times> ptree list" where
  "other_readNode other dec defIter =
     (case nextNode defIter of
        (None, it) \<Rightarrow> (Inr None, it)
      | (Some node, it) \<Rightarrow> (other dec node, it))"

text \<open>The virtual call \<^verbatim>\<open>decoder->readNode(def)\<close>.\<close>

definition readNode ::
  "(Defect \<Rightarrow> Defect) \<Rightarrow> (TreeDecoder \<Rightarrow> ptree \<Rightarrow> error + Defect option) \<Rightarrow>
   TreeDecoder \<Rightarrow> ptree list \<Rightarrow> (error + Defect option) \<times> ptree list" where
  "readNode postProc other dec defIter =
     (case dec of
        GccTreeDecoder \<Rightarrow>
          (case GccTreeDecoder_readNode postProc defIter of (r, it) \<Rightarrow> (Inr r, it))
      | ShellCheckTreeDecoder \<Rightarrow>
          (case ShellCheckTreeDecoder_readNode postProc defIter of (r, it) \<Rightarrow> (Inr r, it))
      | _ \<Rightarrow> other_readNode other dec defIter)"

section \<open>The JSON parser (parser-json.cc, class JsonParser)\<close>

text \<open>
  The parser's private data with the state of the collaborators it drives: the decoder
  chosen (\<open>None\<close> is the null pointer), the decoder's cursor, and of the input stream the
  error flag and the silent mode. \<open>diagnostics\<close> is what \<^verbatim>\<open>dataError\<close> printed.
\<close>

record JsonParser =
  decoder :: "TreeDecoder option"
  defIter :: "ptree list"
  defNumber :: int
  anyError :: bool
  silent :: bool
  diagnostics :: "message list"

text \<open>
  Modelled from the spec: \<^verbatim>\<open>InStream::handleError\<close> (not part of the sources at hand) marks
  the error flag of the input.
\<close>

definition handleError :: "JsonParser \<Rightarrow> JsonParser" where
  "handleError d = d\<lparr>anyError := True\<rparr>"

definition dataError :: "string \<Rightarrow> JsonParser \<Rightarrow> JsonParser" where
  "dataError m d =
     (let d1 = handleError d in
      if silent d1 then d1
      else d1\<lparr>diagnostics := diagnostics d1 @ [failed_to_read_defect (defNumber d1) m]\<rparr>)"

text \<open>
  Modelled from the spec: \<^verbatim>\<open>readRoot\<close> (abstract-tree.hh) puts the cursor on the first element
  of the defect-bearing collection it is given. \<^verbatim>\<open>readScanProps\<close> only fills the scan
  properties, which are left out here.
\<close>

definition readRoot :: "TreeDecoder \<Rightarrow> ptree \<Rightarrow> JsonParser \<Rightarrow> JsonParser" where
  "readRoot dec node d = d\<lparr>decoder := Some dec, defIter := map snd (children node)\<rparr>"

text \<open>
  The constructor. The input is what \<^verbatim>\<open>read_json\<close> made of the document: \<open>Inl\<close> when it
  raised a \<^verbatim>\<open>file_parser_error\<close>, else the root of the tree.
\<close>

definition JsonParser_new :: "bool \<Rightarrow> string + ptree \<Rightarrow> JsonParser" where
  "JsonParser_new slnt input =
     (let d = \<lparr>decoder = None, defIter = [], defNumber = 0, anyError = False,
                silent = slnt, diagnostics = []\<rparr>
      in case input of
           Inl m \<Rightarrow> handleError d
         | Inr root \<Rightarrow>
             (case children root of
                [] \<Rightarrow> d
              | (k, first) # rest \<Rightarrow>
                  (case findChildOf root ''defects'' of
                     Some node \<Rightarrow> readRoot SimpleTreeDecoder node d
                   | None \<Rightarrow>
                  (case findChildOf root ''issues'' of
                     Some node \<Rightarrow> readRoot CovTreeDecoder node d
                   | None \<Rightarrow>
                  (case findChildOf root ''runs'' of
                     Some node \<Rightarrow> readRoot SarifTreeDecoder node d
                   | None \<Rightarrow>
                  (case findChildOf root ''comments'' of
                     Some node \<Rightarrow> readRoot ShellCheckTreeDecoder node d
                   | None \<Rightarrow>
                       if ptree_find first ''kind'' \<noteq> None then readRoot GccTreeDecoder root d
                       else handleError d))))))"

definition JsonParser_hasError :: "JsonParser \<Rightarrow> bool" where
  "JsonParser_hasError d = anyError d"

text \<open>
  \<^verbatim>\<open>getNext\<close>: the loop runs again only after a \<^verbatim>\<open>ptree_error\<close>; a call through the null
  decoder pointer is the error \<open>null_dereference\<close>.
\<close>

function JsonParser_getNext ::
  "(Defect \<Rightarrow> Defect) \<Rightarrow> (TreeDecoder \<Rightarrow> ptree \<Rightarrow> error + Defect option) \<Rightarrow>
   JsonParser \<Rightarrow> error + (Defect option \<times> JsonParser)" where
  "JsonParser_getNext postProc other d =
     (case decoder d of
        None \<Rightarrow> Inl null_dereference
      | Some dec \<Rightarrow>
          (case readNode postProc other dec (defIter d) of
             (Inr None, it) \<Rightarrow> Inr (None, d\<lparr>defIter := it\<rparr>)
           | (Inr (Some def), it) \<Rightarrow>
               Inr (Some def, d\<lparr>defIter := it, defNumber := defNumber d + 1\<rparr>)
           | (Inl (ptree_error m), it) \<Rightarrow>
               JsonParser_getNext postProc other (dataError m (d\<lparr>defIter := it\<rparr>))
           | (Inl e, it) \<Rightarrow> Inl e))"
  by pat_completeness auto
termination
  by (relation "measure (\<lambda>(postProc, other, d). length (defIter d))")
     (auto simp: readNode_def other_readNode_def nextNode_def dataError_def handleError_def
                 Let_def GccTreeDecoder_readNode_def ShellCheckTreeDecoder_readNode_def
           split: TreeDecoder.splits list.splits prod.splits if_splits)

section \<open>Driving a parser to exhaustion (abstract-writer.cc, AbstractWriter::handleFile)\<close>

text \<open>
  \<^verbatim>\<open>while (parser.getNext(&def)) this->handleDef(def);\<close> The result lists the defects handed
  to \<^verbatim>\<open>handleDef\<close>, in order, with the parser as the loop leaves it.
\<close>

function handleFile_loop ::
  "(Defect \<Rightarrow> Defect) \<Rightarrow> (TreeDecoder \<Rightarrow> ptree \<Rightarrow> error + Defect option) \<Rightarrow>
   JsonParser \<Rightarrow> error + (Defect list \<times> JsonParser)" where
  "handleFile_loop postProc other parser =
     (case JsonParser_getNext postProc other parser of
        Inl e \<Rightarrow> Inl e
      | Inr (None, parser') \<Rightarrow> Inr ([], parser')
      | Inr (Some def, parser') \<Rightarrow>
          (case handleFile_loop postProc other parser' of
             Inl e \<Rightarrow> Inl e
           | Inr (defs, parser'') \<Rightarrow> Inr (def # defs, parser'')))"
  by pat_completeness auto
termination
proof (relation "measure (\<lambda>(postProc, other, parser). length (defIter parser))")
  have rn: "length it' \<le> length it \<and> (r \<noteq> Inr None \<longrightarrow> length it' < length it)"
    if "readNode postProc other dec it = (r, it')" for postProc other dec it r it'
    using that
    by (cases it; cases dec)
       (auto simp: readNode_def other_readNode_def nextNode_def GccTreeDecoder_readNode_def
                   ShellCheckTreeDecoder_readNode_def Let_def
             split: prod.splits if_splits)
  have shorter: "length (defIter d') < length (defIter d)"
    if "JsonParser_getNext postProc other d = Inr (Some def, d')"
    for postProc other d "def" d'
    using that
  proof (induction postProc other d rule: JsonParser_getNext.induct)
    case (1 postProc other d)
    from "1.prems" obtain dec where dec: "decoder d = Some dec"
      by (subst (asm) JsonParser_getNext.simps) (auto split: option.splits)
    obtain r it where r: "readNode postProc other dec (defIter d) = (r, it)"
      by (cases "readNode postProc other dec (defIter d)")
    note len = rn[OF r]
    show ?case
    proof (cases r)
      case (Inr x)
      with "1.prems" dec r len show ?thesis
        by (subst (asm) JsonParser_getNext.simps) (auto split: option.splits)
    next
      case (Inl e)
      show ?thesis
      proof (cases e)
        case (ptree_error m)
        with "1.prems" dec r Inl
        have "JsonParser_getNext postProc other (dataError m (d\<lparr>defIter := it\<rparr>)) = Inr (Some def, d')"
          by (subst (asm) JsonParser_getNext.simps) simp
        from "1.IH"[OF dec r[symmetric] Inl ptree_error this] len Inl
        show ?thesis
          by (simp add: dataError_def handleError_def Let_def split: if_splits)
      qed (use "1.prems" dec r Inl in \<open>subst (asm) JsonParser_getNext.simps, simp\<close>)+
    qed
  qed
  show "wf (measure (\<lambda>(postProc, other, parser). length (defIter parser)))"
    by simp
  show "((postProc, other, parser'), (postProc, other, parser))
        \<in> measure (\<lambda>(postProc, other, parser). length (defIter parser))"
    if "JsonParser_getNext postProc other parser = Inr x" "(y, parser') = x" "y = Some def"
    for postProc other parser x y parser' "def"
    using that shorter[of postProc other parser "def" parser'] by simp
qed

text \<open>
  \<^verbatim>\<open>Parser\<close> and \<^verbatim>\<open>InStream\<close> are not part of the sources at hand; for a JSON document the
  parser at work is the \<^verbatim>\<open>JsonParser\<close>. The input is \<open>None\<close> when the file cannot be opened
  (\<^verbatim>\<open>InFileException\<close>). The result is the list of defects handled and the value returned.
\<close>

definition handleFile ::
  "(Defect \<Rightarrow> Defect) \<Rightarrow> (TreeDecoder \<Rightarrow> ptree \<Rightarrow> error + Defect option) \<Rightarrow>
   bool \<Rightarrow> (string + ptree) option \<Rightarrow> error + (Defect list \<times> bool)" where
  "handleFile postProc other slnt input =
     (case input of
        None \<Rightarrow> Inr ([], False)
      | Some doc \<Rightarrow>
          (case handleFile_loop postProc other (JsonParser_new slnt doc) of
             Inl e \<Rightarrow> Inl e
           | Inr (defs, parser) \<Rightarrow> Inr (defs, \<not> JsonParser_hasError parser)))"

text \<open>The equations of the loops are unfolded by hand in the proofs below.\<close>

declare DefQueryParser_getNext.simps [simp del]
declare query_loop.simps [simp del]
declare JsonParser_getNext.simps [simp del]
declare handleFile_loop.simps [simp del]

section \<open>Example inputs\<close>

text \<open>
  What \<^verbatim>\<open>read_json\<close> makes of a JSON value: a string or number is a leaf holding its text,
  an object a node with one child per member, an array a node whose children have the empty
  key.
\<close>

definition json_leaf :: "string \<Rightarrow> ptree" where
  "json_leaf txt = PTree txt []"

definition json_object :: "(string \<times> ptree) list \<Rightarrow> ptree" where
  "json_object members = PTree [] members"

definition json_array :: "ptree list \<Rightarrow> ptree" where
  "json_array elems = PTree [] (map (Pair []) elems)"


text \<open>The document \<^verbatim>\<open>[{"kind":"warning"},{"kind":""},{"kind":"error"}]\<close>.\<close>

definition gcc_empty_kind_example :: ptree where
  "gcc_empty_kind_example =
     json_array
       [json_object [(''kind'', json_leaf ''warning'')],
        json_object [(''kind'', json_leaf [])],
        json_object [(''kind'', json_leaf ''error'')]]"

text \<open>The document \<^verbatim>\<open>{"comments":[{"level":""},{"level":"warning"}]}\<close>.\<close>

definition sc_empty_level_example :: ptree where
  "sc_empty_level_example =
     json_object
       [(''comments'',
           json_array
             [json_object [(''level'', json_leaf [])],
              json_object [(''level'', json_leaf ''warning'')]])]"


text \<open>The document \<^verbatim>\<open>{"comments":[],"issues":[]}\<close>.\<close>

definition sniff_priority_example :: ptree where
  "sniff_priority_example =
     json_object [(''comments'', json_array []), (''issues'', json_array [])]"

text \<open>A defect with one event, and a stand-in for the decoders of the other formats.\<close>

definition defect_at :: "string \<Rightarrow> string \<Rightarrow> string \<Rightarrow> Defect" where
  "defect_at cls file txt =
     \<lparr>defClass = cls,
      events = [\<lparr>fileName = file, line = 1, column = 0, event = ''warning'', msg = txt\<rparr>],
      cwe = 0\<rparr>"

definition other_undecoded :: "TreeDecoder \<Rightarrow> ptree \<Rightarrow> error + Defect option" where
  "other_undecoded dec node = Inl (ptree_error ''not decoded'')"



section \<open>The correlation queue: insertion, lookup and the invariant\<close>

lemma hashDefect_Inr:
  "msgs d = m # ms \<Longrightarrow>
   hashDefect fp d s =
     Inr (AList.update (defClass d)
            (AList.update (fp (fileName m)) (queued s (defClass d) (fp (fileName m)) @ [d])
               (case map_of s (defClass d) of None \<Rightarrow> [] | Some r \<Rightarrow> r)) s)"
  by (simp add: hashDefect_def queued_def Let_def split: option.splits)

lemma queued_hashDefect:
  assumes "msgs d = m # ms" "hashDefect fp d s = Inr s'"
  shows "queued s' cls path =
     (if cls = defClass d \<and> path = fp (fileName m) then queued s cls path @ [d]
      else queued s cls path)"
proof -
  have s': "s' = AList.update (defClass d)
            (AList.update (fp (fileName m)) (queued s (defClass d) (fp (fileName m)) @ [d])
               (case map_of s (defClass d) of None \<Rightarrow> [] | Some r \<Rightarrow> r)) s"
    using assms by (simp add: hashDefect_Inr)
  show ?thesis
  proof (cases "cls = defClass d")
    case True
    then show ?thesis
      unfolding s' by (cases "map_of s (defClass d)") (simp_all add: queued_def update_conv')
  next
    case False
    then show ?thesis
      unfolding s' by (simp add: queued_def update_conv')
  qed
qed

lemma queued_Cons_iff:
  "queued s cls path = d # ds \<longleftrightarrow>
   (\<exists>row. map_of s cls = Some row \<and> map_of row path = Some (d # ds))"
  by (auto simp: queued_def split: option.splits)

lemma lookup_Cons:
  assumes "queued s cls (fp f) = d # ds"
  shows "\<exists>s'. lookup fp s cls f = Inr (Some d, s') \<and>
           (\<forall>c p. queued s' c p = (if c = cls \<and> p = fp f then ds else queued s c p))"
proof -
  from assms obtain row where row: "map_of s cls = Some row" "map_of row (fp f) = Some (d # ds)"
    by (auto simp: queued_Cons_iff)
  then have ne: "row \<noteq> []" by auto
  show ?thesis
  proof (cases "ds = []")
    case False
    then have "lookup fp s cls f = Inr (Some d, AList.update cls (AList.update (fp f) ds row) s)"
      using row ne by (simp add: lookup_def)
    moreover have "\<forall>c p. queued (AList.update cls (AList.update (fp f) ds row) s) c p =
        (if c = cls \<and> p = fp f then ds else queued s c p)"
      using row by (simp add: queued_def update_conv')
    ultimately show ?thesis by blast
  next
    case True
    show ?thesis
    proof (cases "AList.delete (fp f) row = []")
      case e: True
      have gone: "map_of (AList.delete (fp f) row) p = None" for p
        by (simp add: e)
      have other: "map_of row p = None" if "p \<noteq> fp f" for p
        using that gone[of p] by (simp add: delete_conv')
      have "lookup fp s cls f = Inr (Some d, AList.delete cls s)"
        using row ne True e by (simp add: lookup_def)
      moreover have "\<forall>c p. queued (AList.delete cls s) c p =
        (if c = cls \<and> p = fp f then ds else queued s c p)"
        using row True other by (simp add: queued_def delete_conv')
      ultimately show ?thesis by blast
    next
      case e: False
      have "lookup fp s cls f = Inr (Some d, AList.update cls (AList.delete (fp f) row) s)"
        using row ne True e by (simp add: lookup_def)
      moreover have "\<forall>c p. queued (AList.update cls (AList.delete (fp f) row) s) c p =
        (if c = cls \<and> p = fp f then ds else queued s c p)"
        using row True by (simp add: queued_def update_conv' delete_conv')
      ultimately show ?thesis by blast
    qed
  qed
qed

lemma lookup_None_unchanged:
  "lookup fp s c f = Inr (None, s') \<Longrightarrow> s' = s"
  by (auto simp: lookup_def Let_def split: option.splits if_splits list.splits)

lemma lookup_Some_queued:
  assumes "lookup fp s c f = Inr (Some d, s')"
  shows "queued s c (fp f) = d # queued s' c (fp f)"
proof -
  from assms obtain row col where row: "map_of s c = Some row" "map_of row (fp f) = Some col"
    by (auto simp: lookup_def Let_def split: option.splits if_splits)
  with assms obtain ds where col: "col = d # ds"
    by (auto simp: lookup_def Let_def split: option.splits if_splits list.splits)
  then have q: "queued s c (fp f) = d # ds"
    using row by (simp add: queued_def)
  from lookup_Cons[of s c fp f d ds] q assms show ?thesis
    by auto
qed

lemma list_all_update:
  "list_all P al \<Longrightarrow> P (k, v) \<Longrightarrow> list_all P (AList.update k v al)"
  by (induction al) auto

lemma list_all_delete:
  "list_all P al \<Longrightarrow> list_all P (AList.delete k al)"
  by (induction al) auto

lemma no_empty_container_row:
  assumes "no_empty_container s" "map_of s c = Some row"
  shows "row \<noteq> []" and "list_all (\<lambda>(path, col). col \<noteq> []) row"
proof -
  from assms(2) have "(c, row) \<in> set s" by (rule map_of_SomeD)
  with assms(1) show "row \<noteq> []" and "list_all (\<lambda>(path, col). col \<noteq> []) row"
    by (auto simp: no_empty_container_def list_all_iff)
qed

lemma no_empty_container_col:
  assumes "no_empty_container s" "map_of s c = Some row" "map_of row p = Some col"
  shows "col \<noteq> []"
proof -
  from assms(3) have "(p, col) \<in> set row" by (rule map_of_SomeD)
  with no_empty_container_row(2)[OF assms(1,2)] show ?thesis
    by (auto simp: list_all_iff)
qed

lemma lookup_no_error:
  assumes "no_empty_container s"
  shows "\<exists>r s'. lookup fp s c f = Inr (r, s')"
proof (cases "queued s c (fp f)")
  case Nil
  have "map_of row (fp f) = None" if "map_of s c = Some row" for row
  proof (cases "map_of row (fp f)")
    case (Some col)
    with assms that have "col \<noteq> []" by (auto dest: no_empty_container_col)
    with Nil that Some show ?thesis by (simp add: queued_def)
  qed simp
  then show ?thesis
    by (cases "map_of s c") (simp_all add: lookup_def)
next
  case (Cons d ds)
  from lookup_Cons[of s c fp f d ds] this show ?thesis by blast
qed

lemma no_empty_container_hashDefect:
  assumes "no_empty_container s" "hashDefect fp d s = Inr s'"
  shows "no_empty_container s'"
proof -
  from assms(2) obtain m ms where m: "msgs d = m # ms"
    by (cases "msgs d") (simp_all add: hashDefect_def Let_def)
  define row where "row = (case map_of s (defClass d) of None \<Rightarrow> [] | Some r \<Rightarrow> r)"
  have s': "s' = AList.update (defClass d)
            (AList.update (fp (fileName m)) (queued s (defClass d) (fp (fileName m)) @ [d]) row) s"
    using assms(2) m by (simp add: hashDefect_Inr row_def)
  have "list_all (\<lambda>(path, col). col \<noteq> []) row"
    using assms(1) by (auto simp: row_def dest: no_empty_container_row split: option.splits)
  then have "list_all (\<lambda>(path, col). col \<noteq> [])
      (AList.update (fp (fileName m)) (queued s (defClass d) (fp (fileName m)) @ [d]) row)"
    by (rule list_all_update) simp
  moreover have "AList.update (fp (fileName m)) (queued s (defClass d) (fp (fileName m)) @ [d]) row \<noteq> []"
    by (cases row) auto
  ultimately show ?thesis
    using assms(1) unfolding s' no_empty_container_def
    by (intro list_all_update) simp_all
qed

lemma no_empty_container_lookup:
  assumes "no_empty_container s" "lookup fp s c f = Inr (r, s')"
  shows "no_empty_container s'"
proof (cases r)
  case None
  with assms have "s' = s" by (auto dest: lookup_None_unchanged)
  with assms show ?thesis by simp
next
  case (Some d)
  with assms(2) obtain row col where row: "map_of s c = Some row" "map_of row (fp f) = Some col"
    by (auto simp: lookup_def Let_def split: option.splits if_splits)
  with assms(2) Some obtain ds where col: "col = d # ds"
    by (auto simp: lookup_def Let_def split: option.splits if_splits list.splits)
  from row have ne: "row \<noteq> []" by auto
  have rowok: "list_all (\<lambda>(path, col). col \<noteq> []) row"
    using assms(1) row(1) by (rule no_empty_container_row)
  have s': "s' = (if ds = [] then (if AList.delete (fp f) row = [] then AList.delete c s
                     else AList.update c (AList.delete (fp f) row) s)
                  else AList.update c (AList.update (fp f) ds row) s)"
    using assms(2) Some row col ne by (simp add: lookup_def Let_def split: if_splits)
  have del: "list_all (\<lambda>(path, col). col \<noteq> []) (AList.delete (fp f) row)"
    using rowok by (rule list_all_delete)
  have upd: "ds \<noteq> [] \<Longrightarrow> list_all (\<lambda>(path, col). col \<noteq> []) (AList.update (fp f) ds row)"
    using rowok by (rule list_all_update) simp
  have updne: "AList.update (fp f) ds row \<noteq> []"
    by (cases row) auto
  show ?thesis
  proof (cases "ds = []")
    case False
    with upd updne assms(1) show ?thesis
      unfolding s' no_empty_container_def by (simp add: list_all_update)
  next
    case True
    show ?thesis
    proof (cases "AList.delete (fp f) row = []")
      case True
      with \<open>ds = []\<close> assms(1) show ?thesis
        unfolding s' no_empty_container_def by (simp add: list_all_delete)
    next
      case False
      with \<open>ds = []\<close> del assms(1) show ?thesis
        unfolding s' no_empty_container_def by (simp add: list_all_update)
    qed
  qed
qed

lemma DefQueue_empty_iff:
  assumes "no_empty_container s"
  shows "DefQueue_empty s \<longleftrightarrow> (\<forall>c p. queued s c p = [])"
proof
  assume "DefQueue_empty s"
  then show "\<forall>c p. queued s c p = []" by (simp add: DefQueue_empty_def queued_def)
next
  assume q: "\<forall>c p. queued s c p = []"
  show "DefQueue_empty s"
  proof (cases s)
    case Nil
    then show ?thesis by (simp add: DefQueue_empty_def)
  next
    case (Cons cr s0)
    obtain c row where cr: "cr = (c, row)" by (cases cr)
    with Cons have m: "map_of s c = Some row" by simp
    with assms have "row \<noteq> []" by (rule no_empty_container_row)
    then obtain p col row0 where row: "row = (p, col) # row0" by (cases row) auto
    then have mr: "map_of row p = Some col" by simp
    with assms m have "col \<noteq> []" by (rule no_empty_container_col)
    with m mr have "queued s c p \<noteq> []" by (simp add: queued_def)
    with q show ?thesis by simp
  qed
qed


lemma queued_Nil_iff:
  assumes "no_empty_container s"
  shows "queued s c p = [] \<longleftrightarrow>
         (case map_of s c of None \<Rightarrow> True | Some row \<Rightarrow> map_of row p = None)"
  using no_empty_container_col[OF assms]
  by (auto simp: queued_def split: option.splits)

lemma outer_key_has_defect:
  assumes "no_empty_container s" and "map_of s c = Some row"
  shows "\<exists>p col. map_of row p = Some col \<and> col \<noteq> []"
proof -
  from assms have "row \<noteq> []" by (rule no_empty_container_row)
  then obtain p col row0 where "row = (p, col) # row0" by (cases row) auto
  then have mr: "map_of row p = Some col" by simp
  with assms have "col \<noteq> []" by (rule no_empty_container_col)
  with mr show ?thesis by blast
qed

lemma outer_key_absent:
  assumes "no_empty_container s" and "\<forall>p. queued s c p = []"
  shows "map_of s c = None"
proof (cases "map_of s c")
  case (Some row)
  from outer_key_has_defect[OF assms(1) Some] obtain p col
    where "map_of row p = Some col" "col \<noteq> []" by blast
  with Some have "queued s c p \<noteq> []" by (simp add: queued_def)
  with assms(2) show ?thesis by simp
qed simp

lemma inner_key_absent:
  assumes "no_empty_container s" and "queued s c p = []" and "map_of s c = Some row"
  shows "map_of row p = None"
  using queued_Nil_iff[OF assms(1), of c p] assms(2,3) by simp

lemma lookup_total:
  assumes "no_empty_container s"
  shows "\<exists>r s'. lookup fp s c f = Inr (r, s') \<and> no_empty_container s' \<and>
           (case r of
              None \<Rightarrow> s' = s \<and> queued s c (fp f) = []
            | Some d \<Rightarrow>
                queued s c (fp f) = d # queued s' c (fp f) \<and>
                (\<forall>c' p. (c', p) \<noteq> (c, fp f) \<longrightarrow> queued s' c' p = queued s c' p)) \<and>
           (queued s' c (fp f) = [] \<longrightarrow>
              (\<forall>row'. map_of s' c = Some row' \<longrightarrow> map_of row' (fp f) = None)) \<and>
           ((\<forall>p. queued s' c p = []) \<longrightarrow> map_of s' c = None)"
proof -
  have core: "\<exists>r s'. lookup fp s c f = Inr (r, s') \<and> no_empty_container s' \<and>
           (case r of
              None \<Rightarrow> s' = s \<and> queued s c (fp f) = []
            | Some d \<Rightarrow>
                queued s c (fp f) = d # queued s' c (fp f) \<and>
                (\<forall>c' p. (c', p) \<noteq> (c, fp f) \<longrightarrow> queued s' c' p = queued s c' p))"
  proof (cases "queued s c (fp f)")
    case Nil
    from lookup_no_error[OF assms, of fp c f]
    obtain r s' where l: "lookup fp s c f = Inr (r, s')" by blast
    have "r = None"
    proof (cases r)
      case (Some d)
      with l Nil lookup_Some_queued[of fp s c f d s'] show ?thesis by simp
    qed simp
    with l have "s' = s" by (auto dest: lookup_None_unchanged)
    with l \<open>r = None\<close> Nil assms show ?thesis by simp
  next
    case (Cons d ds)
    from lookup_Cons[of s c fp f d ds] Cons
    obtain s' where l: "lookup fp s c f = Inr (Some d, s')"
      and q: "\<forall>c' p. queued s' c' p = (if c' = c \<and> p = fp f then ds else queued s c' p)"
      by blast
    from no_empty_container_lookup[OF assms l] l q Cons show ?thesis by simp
  qed
  then obtain r s' where l: "lookup fp s c f = Inr (r, s')" and inv: "no_empty_container s'"
    and res: "(case r of
              None \<Rightarrow> s' = s \<and> queued s c (fp f) = []
            | Some d \<Rightarrow>
                queued s c (fp f) = d # queued s' c (fp f) \<and>
                (\<forall>c' p. (c', p) \<noteq> (c, fp f) \<longrightarrow> queued s' c' p = queued s c' p))"
    by blast
  have "queued s' c (fp f) = [] \<longrightarrow>
          (\<forall>row'. map_of s' c = Some row' \<longrightarrow> map_of row' (fp f) = None)"
    using inner_key_absent[OF inv] by blast
  moreover have "(\<forall>p. queued s' c p = []) \<longrightarrow> map_of s' c = None"
    using outer_key_absent[OF inv] by blast
  ultimately show ?thesis using l inv res by blast
qed

text \<open>
  Claim C6. The queue keeps every present key, outer or inner, on a non-empty container:
  the empty queue does, every insertion and every lookup keeps it so, and a lookup never
  reads an empty list. A lookup that finds nothing leaves the queue as it is; one that
  succeeds takes the oldest defect of its key and touches no other key; when it leaves
  nothing queued under the inner key, that key is absent afterwards, and when it leaves
  nothing queued under the outer key, the outer key is absent too. Under the invariant an
  outer key that is present has an inner key with a defect, nothing is queued under a key
  exactly when the key is absent, and the queue is empty exactly when no defect is queued.
\<close>

theorem C6_self_pruning:
  "no_empty_container [] \<and>
   (no_empty_container s \<longrightarrow>
      (\<forall>d s'. hashDefect fp d s = Inr s' \<longrightarrow> no_empty_container s') \<and>
      (\<forall>c f. \<exists>r s'. lookup fp s c f = Inr (r, s') \<and> no_empty_container s' \<and>
           (case r of
              None \<Rightarrow> s' = s \<and> queued s c (fp f) = []
            | Some d \<Rightarrow>
                queued s c (fp f) = d # queued s' c (fp f) \<and>
                (\<forall>c' p. (c', p) \<noteq> (c, fp f) \<longrightarrow> queued s' c' p = queued s c' p)) \<and>
           (queued s' c (fp f) = [] \<longrightarrow>
              (\<forall>row'. map_of s' c = Some row' \<longrightarrow> map_of row' (fp f) = None)) \<and>
           ((\<forall>p. queued s' c p = []) \<longrightarrow> map_of s' c = None)) \<and>
      (\<forall>c row. map_of s c = Some row \<longrightarrow> (\<exists>p col. map_of row p = Some col \<and> col \<noteq> [])) \<and>
      (\<forall>c p. queued s c p = [] \<longleftrightarrow>
           (case map_of s c of None \<Rightarrow> True | Some row \<Rightarrow> map_of row p = None)) \<and>
      (DefQueue_empty s \<longleftrightarrow> (\<forall>c p. queued s c p = [])))"
proof (intro conjI impI allI)
  show "no_empty_container []" by (simp add: no_empty_container_def)
next
  fix d s' assume "no_empty_container s" "hashDefect fp d s = Inr s'"
  then show "no_empty_container s'" by (rule no_empty_container_hashDefect)
next
  fix c f assume "no_empty_container s"
  then show "\<exists>r s'. lookup fp s c f = Inr (r, s') \<and> no_empty_container s' \<and>
           (case r of
              None \<Rightarrow> s' = s \<and> queued s c (fp f) = []
            | Some d \<Rightarrow>
                queued s c (fp f) = d # queued s' c (fp f) \<and>
                (\<forall>c' p. (c', p) \<noteq> (c, fp f) \<longrightarrow> queued s' c' p = queued s c' p)) \<and>
           (queued s' c (fp f) = [] \<longrightarrow>
              (\<forall>row'. map_of s' c = Some row' \<longrightarrow> map_of row' (fp f) = None)) \<and>
           ((\<forall>p. queued s' c p = []) \<longrightarrow> map_of s' c = None)"
    by (rule lookup_total)
next
  fix c row assume "no_empty_container s" and "map_of s c = Some row"
  then show "\<exists>p col. map_of row p = Some col \<and> col \<noteq> []"
    by (rule outer_key_has_defect)
next
  fix c p assume "no_empty_container s"
  then show "queued s c p = [] \<longleftrightarrow>
         (case map_of s c of None \<Rightarrow> True | Some row \<Rightarrow> map_of row p = None)"
    by (rule queued_Nil_iff)
next
  assume "no_empty_container s"
  then show "DefQueue_empty s \<longleftrightarrow> (\<forall>c p. queued s c p = [])"
    by (rule DefQueue_empty_iff)
qed

text \<open>The queue holding one defect, and the lookup that empties it.\<close>

theorem C6_self_pruning_witness:
  "no_empty_container [(''X'', [(''f'', [defect_at ''X'' ''f'' ''A''])])] \<and>
   lookup id [(''X'', [(''f'', [defect_at ''X'' ''f'' ''A''])])] ''X'' ''f'' =
     Inr (Some (defect_at ''X'' ''f'' ''A''), []) \<and>
   (\<exists>r s'. lookup id [(''X'', [(''f'', [defect_at ''X'' ''f'' ''A''])])] ''X'' ''f'' = Inr (r, s') \<and>
      no_empty_container s') \<and>
   DefQueue_empty []"
  using C6_self_pruning[of "[(''X'', [(''f'', [defect_at ''X'' ''f'' ''A''])])]" id]
  by (simp add: no_empty_container_def lookup_def DefQueue_empty_def Let_def)

text \<open>
  Claim C4, as amended. Let no defect be queued under a key. Inserting \<open>A\<close> and then \<open>B\<close>
  under that key succeeds, the next two lookups with the key return \<open>A\<close> first and \<open>B\<close>
  second, and nothing is queued under the key afterwards.
\<close>

theorem C4_fifo_within_key:
  assumes "msgs A = a # as" and "msgs B = b # bs"
    and "defClass A = cls" and "defClass B = cls"
    and "fp (fileName a) = fp f" and "fp (fileName b) = fp f"
    and "queued s cls (fp f) = []"
  shows "\<exists>s1 s2 s3 s4.
           hashDefect fp A s = Inr s1 \<and> hashDefect fp B s1 = Inr s2 \<and>
           lookup fp s2 cls f = Inr (Some A, s3) \<and>
           lookup fp s3 cls f = Inr (Some B, s4) \<and>
           queued s4 cls (fp f) = []"
proof -
  obtain s1 where s1: "hashDefect fp A s = Inr s1"
    using assms(1) by (simp add: hashDefect_Inr)
  obtain s2 where s2: "hashDefect fp B s1 = Inr s2"
    using assms(2) by (simp add: hashDefect_Inr)
  have q1: "queued s1 cls (fp f) = [A]"
    using queued_hashDefect[OF assms(1) s1, of cls "fp f"] assms by simp
  have q2: "queued s2 cls (fp f) = [A, B]"
    using queued_hashDefect[OF assms(2) s2, of cls "fp f"] assms q1 by simp
  from lookup_Cons[of s2 cls fp f A "[B]"] q2
  obtain s3 where s3: "lookup fp s2 cls f = Inr (Some A, s3)"
    and q3: "queued s3 cls (fp f) = [B]" by auto
  from lookup_Cons[of s3 cls fp f B "[]"] q3
  obtain s4 where s4: "lookup fp s3 cls f = Inr (Some B, s4)"
    and q4: "queued s4 cls (fp f) = []" by auto
  from s1 s2 s3 s4 q4 show ?thesis by blast
qed

text \<open>Two defects of class X in file f, inserted into the empty queue.\<close>

theorem C4_fifo_within_key_witness:
  "msgs (defect_at ''X'' ''f'' ''A'') =
     [\<lparr>fileName = ''f'', line = 1, column = 0, event = ''warning'', msg = ''A''\<rparr>] \<and>
   queued [] ''X'' ''f'' = [] \<and>
   (\<exists>s1 s2 s3 s4.
      hashDefect id (defect_at ''X'' ''f'' ''A'') [] = Inr s1 \<and>
      hashDefect id (defect_at ''X'' ''f'' ''B'') s1 = Inr s2 \<and>
      lookup id s2 ''X'' ''f'' = Inr (Some (defect_at ''X'' ''f'' ''A''), s3) \<and>
      lookup id s3 ''X'' ''f'' = Inr (Some (defect_at ''X'' ''f'' ''B''), s4) \<and>
      queued s4 ''X'' ''f'' = [])"
  using C4_fifo_within_key[of "defect_at ''X'' ''f'' ''A''"
      "\<lparr>fileName = ''f'', line = 1, column = 0, event = ''warning'', msg = ''A''\<rparr>" "[]"
      "defect_at ''X'' ''f'' ''B''"
      "\<lparr>fileName = ''f'', line = 1, column = 0, event = ''warning'', msg = ''B''\<rparr>" "[]"
      "''X''" id "''f''" "[]"]
  by (simp add: defect_at_def queued_def)

text \<open>
  In a queue that already holds \<open>C\<close> under the key, the two lookups after inserting \<open>A\<close>
  and \<open>B\<close> return \<open>C\<close> and then \<open>A\<close>.
\<close>

theorem C4_fifo_counterexample:
  "hashDefect id (defect_at ''X'' ''f'' ''C'') [] =
     Inr [(''X'', [(''f'', [defect_at ''X'' ''f'' ''C''])])] \<and>
   hashDefect id (defect_at ''X'' ''f'' ''A'') [(''X'', [(''f'', [defect_at ''X'' ''f'' ''C''])])] =
     Inr [(''X'', [(''f'', [defect_at ''X'' ''f'' ''C'', defect_at ''X'' ''f'' ''A''])])] \<and>
   hashDefect id (defect_at ''X'' ''f'' ''B'')
       [(''X'', [(''f'', [defect_at ''X'' ''f'' ''C'', defect_at ''X'' ''f'' ''A''])])] =
     Inr [(''X'', [(''f'', [defect_at ''X'' ''f'' ''C'', defect_at ''X'' ''f'' ''A'',
                           defect_at ''X'' ''f'' ''B''])])] \<and>
   lookup id [(''X'', [(''f'', [defect_at ''X'' ''f'' ''C'', defect_at ''X'' ''f'' ''A'',
                               defect_at ''X'' ''f'' ''B''])])] ''X'' ''f'' =
     Inr (Some (defect_at ''X'' ''f'' ''C''),
          [(''X'', [(''f'', [defect_at ''X'' ''f'' ''A'', defect_at ''X'' ''f'' ''B''])])]) \<and>
   lookup id [(''X'', [(''f'', [defect_at ''X'' ''f'' ''A'', defect_at ''X'' ''f'' ''B''])])]
       ''X'' ''f'' =
     Inr (Some (defect_at ''X'' ''f'' ''A''), [(''X'', [(''f'', [defect_at ''X'' ''f'' ''B''])])]) \<and>
   defect_at ''X'' ''f'' ''C'' \<noteq> defect_at ''X'' ''f'' ''A'' \<and>
   defect_at ''X'' ''f'' ''A'' \<noteq> defect_at ''X'' ''f'' ''B''"
  by (simp add: hashDefect_def lookup_def defect_at_def Let_def)

text \<open>
  Claim C5, as amended. Let no defect be queued under the key of \<open>d\<close> (its class and the
  normalized file name of its key event). Inserting \<open>d\<close> and looking up with the class and
  the file name of the key event succeeds and returns \<open>d\<close>, and afterwards every key holds
  what it held before the insertion.
\<close>

theorem C5_insert_then_lookup:
  assumes "msgs d = m # ms"
    and "queued s (defClass d) (fp (fileName m)) = []"
  shows "\<exists>s1 s2.
           hashDefect fp d s = Inr s1 \<and>
           lookup fp s1 (defClass d) (fileName m) = Inr (Some d, s2) \<and>
           (\<forall>c p. queued s2 c p = queued s c p)"
proof -
  obtain s1 where s1: "hashDefect fp d s = Inr s1"
    using assms(1) by (simp add: hashDefect_Inr)
  have q1: "queued s1 c p =
      (if c = defClass d \<and> p = fp (fileName m) then [d] else queued s c p)" for c p
    using queued_hashDefect[OF assms(1) s1, of c p] assms(2) by simp
  then have "queued s1 (defClass d) (fp (fileName m)) = [d]" by simp
  from lookup_Cons[of s1 "defClass d" fp "fileName m" d "[]"] this
  obtain s2 where s2: "lookup fp s1 (defClass d) (fileName m) = Inr (Some d, s2)"
    and q2: "\<forall>c p. queued s2 c p =
        (if c = defClass d \<and> p = fp (fileName m) then [] else queued s1 c p)" by blast
  have "\<forall>c p. queued s2 c p = queued s c p"
    using q1 q2 assms(2) by simp
  with s1 s2 show ?thesis by blast
qed

text \<open>A defect of class X in file f, inserted into a queue holding a defect of class Y.\<close>

theorem C5_insert_then_lookup_witness:
  "msgs (defect_at ''X'' ''f'' ''A'') =
     [\<lparr>fileName = ''f'', line = 1, column = 0, event = ''warning'', msg = ''A''\<rparr>] \<and>
   queued [(''Y'', [(''g'', [defect_at ''Y'' ''g'' ''B''])])] ''X'' ''f'' = [] \<and>
   (\<exists>s1 s2.
      hashDefect id (defect_at ''X'' ''f'' ''A'') [(''Y'', [(''g'', [defect_at ''Y'' ''g'' ''B''])])] =
        Inr s1 \<and>
      lookup id s1 ''X'' ''f'' = Inr (Some (defect_at ''X'' ''f'' ''A''), s2) \<and>
      queued s2 ''Y'' ''g'' = [defect_at ''Y'' ''g'' ''B''])"
proof -
  let ?S = "[(''Y'', [(''g'', [defect_at ''Y'' ''g'' ''B''])])]"
  have h1: "msgs (defect_at ''X'' ''f'' ''A'') =
     [\<lparr>fileName = ''f'', line = 1, column = 0, event = ''warning'', msg = ''A''\<rparr>]"
    by (simp add: defect_at_def)
  have c: "defClass (defect_at ''X'' ''f'' ''A'') = ''X''"
    by (simp add: defect_at_def)
  have h2: "queued ?S ''X'' ''f'' = []"
    by (simp add: queued_def)
  from C5_insert_then_lookup[of "defect_at ''X'' ''f'' ''A''" _ "[]" ?S id] h1 h2 c
  obtain s1 s2 where
    "hashDefect id (defect_at ''X'' ''f'' ''A'') ?S = Inr s1"
    "lookup id s1 ''X'' ''f'' = Inr (Some (defect_at ''X'' ''f'' ''A''), s2)"
    "\<forall>c p. queued s2 c p = queued ?S c p"
    by auto
  moreover have "queued ?S ''Y'' ''g'' = [defect_at ''Y'' ''g'' ''B'']"
    by (simp add: queued_def)
  ultimately show ?thesis using h1 h2 by auto
qed

text \<open>
  In a queue that already holds \<open>A\<close> under the key of \<open>B\<close>, the lookup right after inserting
  \<open>B\<close> returns \<open>A\<close>, and \<open>B\<close> is still queued.
\<close>

theorem C5_insert_then_lookup_counterexample:
  "hashDefect id (defect_at ''X'' ''f'' ''B'') [(''X'', [(''f'', [defect_at ''X'' ''f'' ''A''])])] =
     Inr [(''X'', [(''f'', [defect_at ''X'' ''f'' ''A'', defect_at ''X'' ''f'' ''B''])])] \<and>
   lookup id [(''X'', [(''f'', [defect_at ''X'' ''f'' ''A'', defect_at ''X'' ''f'' ''B''])])]
       ''X'' ''f'' =
     Inr (Some (defect_at ''X'' ''f'' ''A''), [(''X'', [(''f'', [defect_at ''X'' ''f'' ''B''])])]) \<and>
   defect_at ''X'' ''f'' ''A'' \<noteq> defect_at ''X'' ''f'' ''B'' \<and>
   queued [(''X'', [(''f'', [defect_at ''X'' ''f'' ''B''])])] ''X'' ''f'' =
     [defect_at ''X'' ''f'' ''B'']"
  by (simp add: hashDefect_def lookup_def defect_at_def queued_def Let_def)


section \<open>The query stream parser and the exit status\<close>

lemma split_commas_nonempty: "split_commas ln \<noteq> []"
  by (induction ln) (auto split: list.splits)

lemma split_commas_no_comma: "t \<in> set (split_commas ln) \<Longrightarrow> CHR '','' \<notin> set t"
  by (induction ln arbitrary: t) (auto split: list.splits if_splits)

lemma split_commas_join:
  "concat (map (\<lambda>t. CHR '','' # t) (split_commas ln)) = CHR '','' # ln"
  by (induction ln) (auto split: list.splits)

lemma split_commas_length: "length (split_commas ln) = Suc (count_list ln CHR '','')"
  by (induction ln) (auto split: list.splits)

lemma getNext_line:
  assumes "\<not> cin_fail p" and "cin p = ln # rest"
  shows "DefQueryParser_getNext p =
     (let tokens = split_commas ln; n = lineno p + 1 in
      if length tokens < 3 then
        DefQueryParser_getNext
          (p\<lparr>cin := rest, lineno := n, cerr := cerr p @ [not_enough_commas n],
             hasError := True\<rparr>)
      else
        (case lexical_cast_int (tokens ! 0) of
           None \<Rightarrow>
             DefQueryParser_getNext
               (p\<lparr>cin := rest, lineno := n, cerr := cerr p @ [failed_to_parse_CID n],
                  hasError := True\<rparr>)
         | Some c \<Rightarrow>
             (Some \<lparr>cid = c, row_defClass = tokens ! 1, row_fileName = tokens ! 2\<rparr>,
              p\<lparr>cin := rest, lineno := n\<rparr>)))"
  using assms
  by (simp add: DefQueryParser_getNext.simps[of p] parse_def Let_def split: option.splits)

lemma getNext_hasError_kept:
  "hasError p \<Longrightarrow> hasError (snd (DefQueryParser_getNext p))"
proof (induction p rule: DefQueryParser_getNext.induct)
  case (1 p)
  show ?case
  proof (cases "cin_fail p")
    case True
    with "1.prems" show ?thesis by (simp add: DefQueryParser_getNext.simps[of p])
  next
    case False
    obtain x p' where x: "parse p = (x, p')" by (cases "parse p")
    show ?thesis
    proof (cases x)
      case None
      from "1.IH"[OF False x[symmetric] None] False x None show ?thesis
        by (simp add: DefQueryParser_getNext.simps[of p])
    next
      case (Some row)
      with False x "1.prems" show ?thesis
        by (auto simp: DefQueryParser_getNext.simps[of p] parse_def Let_def
                 split: list.splits if_splits option.splits)
    qed
  qed
qed

text \<open>
  Claim C8. Let a line be left on the query stream. Its tokens are the pieces between the
  commas (joined by commas they give the line back, none holds a comma, and there is one
  more of them than commas). With fewer than three tokens, or a first token that is not an
  integer, \<^verbatim>\<open>getNext\<close> reports the error with the number of the line, sets the error flag
  and goes on with the next line as if called there; the flag is still set when it returns.
  Otherwise it returns the query made of the integer of token 0 and tokens 1 and 2 as they
  are, whatever tokens follow, and the line is consumed.
\<close>

theorem C8_query_line:
  assumes "\<not> cin_fail p" and "cin p = ln # rest"
  shows "(let tokens = split_commas ln; n = lineno p + 1 in
      concat (map (\<lambda>t. CHR '','' # t) tokens) = CHR '','' # ln \<and>
      (\<forall>t \<in> set tokens. CHR '','' \<notin> set t) \<and>
      length tokens = Suc (count_list ln CHR '','') \<and>
      DefQueryParser_getNext p =
        (if length tokens < 3 then
           DefQueryParser_getNext
             (p\<lparr>cin := rest, lineno := n, cerr := cerr p @ [not_enough_commas n],
                hasError := True\<rparr>)
         else
           (case lexical_cast_int (tokens ! 0) of
              None \<Rightarrow>
                DefQueryParser_getNext
                  (p\<lparr>cin := rest, lineno := n, cerr := cerr p @ [failed_to_parse_CID n],
                     hasError := True\<rparr>)
            | Some c \<Rightarrow>
                (Some \<lparr>cid = c, row_defClass = tokens ! 1, row_fileName = tokens ! 2\<rparr>,
                 p\<lparr>cin := rest, lineno := n\<rparr>))) \<and>
      (length tokens < 3 \<or> lexical_cast_int (tokens ! 0) = None \<longrightarrow>
         hasError (snd (DefQueryParser_getNext p))))"
proof -
  note line = getNext_line[OF assms]
  have flag: "hasError (snd (DefQueryParser_getNext p))"
    if "length (split_commas ln) < 3 \<or> lexical_cast_int (split_commas ln ! 0) = None"
  proof (cases "length (split_commas ln) < 3")
    case True
    with line have "DefQueryParser_getNext p =
        DefQueryParser_getNext
          (p\<lparr>cin := rest, lineno := lineno p + 1,
             cerr := cerr p @ [not_enough_commas (lineno p + 1)], hasError := True\<rparr>)"
      by (simp add: Let_def)
    then show ?thesis
      using getNext_hasError_kept[of "p\<lparr>cin := rest, lineno := lineno p + 1,
             cerr := cerr p @ [not_enough_commas (lineno p + 1)], hasError := True\<rparr>"]
      by simp
  next
    case False
    with that line have "DefQueryParser_getNext p =
        DefQueryParser_getNext
          (p\<lparr>cin := rest, lineno := lineno p + 1,
             cerr := cerr p @ [failed_to_parse_CID (lineno p + 1)], hasError := True\<rparr>)"
      by (simp add: Let_def)
    then show ?thesis
      using getNext_hasError_kept[of "p\<lparr>cin := rest, lineno := lineno p + 1,
             cerr := cerr p @ [failed_to_parse_CID (lineno p + 1)], hasError := True\<rparr>"]
      by simp
  qed
  show ?thesis
    unfolding Let_def
    using line flag split_commas_join[of ln] split_commas_no_comma[of _ ln]
      split_commas_length[of ln]
    by (auto simp: Let_def)
qed

text \<open>The line \<^verbatim>\<open>not-an-int,CLASS,file.c\<close> followed by \<^verbatim>\<open>7,CLASS,file.c,extra\<close>.\<close>

theorem C8_query_line_witness:
  "\<not> cin_fail (DefQueryParser_new [''not-an-int,CLASS,file.c'', ''7,CLASS,file.c,extra'']) \<and>
   cin (DefQueryParser_new [''not-an-int,CLASS,file.c'', ''7,CLASS,file.c,extra'']) =
     [''not-an-int,CLASS,file.c'', ''7,CLASS,file.c,extra''] \<and>
   DefQueryParser_getNext (DefQueryParser_new [''not-an-int,CLASS,file.c'', ''7,CLASS,file.c,extra'']) =
     (Some \<lparr>cid = 7, row_defClass = ''CLASS'', row_fileName = ''file.c''\<rparr>,
      \<lparr>cin = [], cin_fail = False, lineno = 2, hasError = True,
         cerr = [failed_to_parse_CID 1]\<rparr>)"
  using C8_query_line[of "DefQueryParser_new [''not-an-int,CLASS,file.c'', ''7,CLASS,file.c,extra'']"
          "''not-an-int,CLASS,file.c''" "[''7,CLASS,file.c,extra'']"]
        C8_query_line[of "\<lparr>cin = [''7,CLASS,file.c,extra''], cin_fail = False, lineno = 1,
             hasError = True, cerr = [failed_to_parse_CID 1]\<rparr>" "''7,CLASS,file.c,extra''" "[]"]
  by (simp add: DefQueryParser_new_def Let_def lexical_cast_int_def is_digit_def digit_value_def)

text \<open>
  \<^verbatim>\<open>getNext\<close> returns \<^verbatim>\<open>false\<close> only after \<^verbatim>\<open>parse\<close> has failed at the end of the input, which
  sets the error flag as a rejected line does: a run that reads the queries to the end
  never exits with status 0.
\<close>

lemma getNext_Some_not_fail:
  "DefQueryParser_getNext p = (Some row, p') \<Longrightarrow> \<not> cin_fail p'"
proof (induction p rule: DefQueryParser_getNext.induct)
  case (1 p)
  show ?case
  proof (cases "cin_fail p")
    case True
    with "1.prems" show ?thesis by (simp add: DefQueryParser_getNext.simps[of p])
  next
    case False
    obtain x q where x: "parse p = (x, q)" by (cases "parse p")
    show ?thesis
    proof (cases x)
      case None
      with "1.prems" False x have "DefQueryParser_getNext (q\<lparr>hasError := True\<rparr>) = (Some row, p')"
        by (simp add: DefQueryParser_getNext.simps[of p])
      with "1.IH"[OF False x[symmetric] None] show ?thesis by simp
    next
      case (Some r)
      with "1.prems" False x show ?thesis
        by (auto simp: DefQueryParser_getNext.simps[of p] parse_def Let_def
                 split: list.splits if_splits option.splits)
    qed
  qed
qed

lemma getNext_None_hasError:
  "DefQueryParser_getNext p = (None, p') \<Longrightarrow> \<not> cin_fail p \<Longrightarrow> hasError p'"
proof (induction p rule: DefQueryParser_getNext.induct)
  case (1 p)
  obtain x q where x: "parse p = (x, q)" by (cases "parse p")
  show ?case
  proof (cases x)
    case None
    with "1.prems" x have eq: "DefQueryParser_getNext (q\<lparr>hasError := True\<rparr>) = (None, p')"
      by (simp add: DefQueryParser_getNext.simps[of p])
    show ?thesis
    proof (cases "cin_fail q")
      case True
      with eq show ?thesis
        by (auto simp: DefQueryParser_getNext.simps[of "q\<lparr>hasError := True\<rparr>"])
    next
      case False
      with "1.IH"[OF "1.prems"(2) x[symmetric] None] eq show ?thesis by simp
    qed
  next
    case (Some r)
    with "1.prems" x show ?thesis
      by (simp add: DefQueryParser_getNext.simps[of p])
  qed
qed

lemma query_loop_hasError:
  "query_loop fp stor q um out = Inr (stor', q', um', out') \<Longrightarrow> \<not> cin_fail q \<Longrightarrow> hasError q'"
proof (induction fp stor q um out rule: query_loop.induct)
  case (1 fp stor q um out)
  obtain x p where x: "DefQueryParser_getNext q = (x, p)" by (cases "DefQueryParser_getNext q")
  show ?case
  proof (cases x)
    case None
    with "1.prems" x show ?thesis
      by (auto simp: query_loop.simps[of fp stor q] dest: getNext_None_hasError)
  next
    case (Some row)
    with x have nf: "\<not> cin_fail p" by (auto dest: getNext_Some_not_fail)
    show ?thesis
    proof (cases "lookup fp stor (row_defClass row) (row_fileName row)")
      case (Inl e)
      with "1.prems" x Some show ?thesis by (simp add: query_loop.simps[of fp stor q])
    next
      case (Inr res)
      obtain r s1 where res: "res = (r, s1)" by (cases res)
      show ?thesis
      proof (cases r)
        case None
        with "1.prems"(1) x Some Inr res
        have "query_loop fp s1 (p\<lparr>cerr := cerr p @ [defect_lookup_failed (cid row)]\<rparr>)
                (um @ [row]) out = Inr (stor', q', um', out')"
          by (simp add: query_loop.simps[of fp stor q])
        from "1.IH"(1)[OF x[symmetric] Some Inr res[symmetric] None this] nf
        show ?thesis by simp
      next
        case (Some d)
        with "1.prems"(1) x \<open>x = Some row\<close> Inr res
        have "query_loop fp s1 p um (out @ [(d, cid row)]) = Inr (stor', q', um', out')"
          by (simp add: query_loop.simps[of fp stor q])
        from "1.IH"(2)[OF x[symmetric] \<open>x = Some row\<close> Inr res[symmetric] Some this] nf
        show ?thesis by simp
      qed
    qed
  qed
qed

lemma main_exit_status:
  "main fp argc defList stdin = Inr r \<Longrightarrow> exit_status r = 1"
  by (auto simp: main_def Let_def DefQueryParser_new_def
           split: if_splits option.splits sum.splits prod.splits
           dest!: query_loop_hasError)

lemma no_empty_container_hashDefects:
  "no_empty_container s \<Longrightarrow> hashDefects fp defs s = Inr s' \<Longrightarrow> no_empty_container s'"
proof (induction defs arbitrary: s)
  case Nil
  then show ?case by simp
next
  case (Cons d defs)
  from Cons.prems(2) obtain s1 where s1: "hashDefect fp d s = Inr s1"
    and rest: "hashDefects fp defs s1 = Inr s'"
    by (auto split: sum.splits)
  from Cons.prems(1) s1 have "no_empty_container s1" by (rule no_empty_container_hashDefect)
  from Cons.IH[OF this rest] show ?case .
qed

lemma no_empty_container_query_loop:
  "query_loop fp stor q um out = Inr (stor', q', um', out') \<Longrightarrow> no_empty_container stor \<Longrightarrow>
   no_empty_container stor'"
proof (induction fp stor q um out rule: query_loop.induct)
  case (1 fp stor q um out)
  obtain x p where x: "DefQueryParser_getNext q = (x, p)" by (cases "DefQueryParser_getNext q")
  show ?case
  proof (cases x)
    case None
    with "1.prems" x show ?thesis
      by (simp add: query_loop.simps[of fp stor q])
  next
    case (Some row)
    show ?thesis
    proof (cases "lookup fp stor (row_defClass row) (row_fileName row)")
      case (Inl e)
      with "1.prems" x Some show ?thesis by (simp add: query_loop.simps[of fp stor q])
    next
      case (Inr res)
      obtain r s1 where res: "res = (r, s1)" by (cases res)
      from "1.prems"(2) Inr res have inv1: "no_empty_container s1"
        by (auto dest: no_empty_container_lookup)
      show ?thesis
      proof (cases r)
        case None
        with "1.prems"(1) x Some Inr res
        have "query_loop fp s1 (p\<lparr>cerr := cerr p @ [defect_lookup_failed (cid row)]\<rparr>)
                (um @ [row]) out = Inr (stor', q', um', out')"
          by (simp add: query_loop.simps[of fp stor q])
        from "1.IH"(1)[OF x[symmetric] Some Inr res[symmetric] None this inv1]
        show ?thesis .
      next
        case (Some d)
        with "1.prems"(1) x \<open>x = Some row\<close> Inr res
        have "query_loop fp s1 p um (out @ [(d, cid row)]) = Inr (stor', q', um', out')"
          by (simp add: query_loop.simps[of fp stor q])
        from "1.IH"(2)[OF x[symmetric] \<open>x = Some row\<close> Inr res[symmetric] Some this inv1]
        show ?thesis .
      qed
    qed
  qed
qed

lemma main_flags:
  assumes "main fp 4 (Some (defs, e)) stdin = Inr r"
  shows "exit_status r =
           (if lookupError r \<or> qParser_hasError r \<or> defParser_hasError r then 1 else 0)"
    and "defParser_hasError r = e"
    and "lookupError r \<longleftrightarrow> residual r \<noteq> []"
    and "lookupError r \<longleftrightarrow> (\<exists>c p. queued (residual r) c p \<noteq> [])"
    and "qParser_hasError r"
proof -
  from assms obtain stor stor' q um out where
    h: "hashDefects fp defs [] = Inr stor"
    and l: "query_loop fp stor (DefQueryParser_new stdin) [] [] = Inr (stor', q, um, out)"
    and r: "r = \<lparr>exit_status = (if stor' \<noteq> [] \<or> hasError q \<or> e then 1 else 0),
                 linked = out, unmatched_rows = um, residual = stor',
                 lookupError = (stor' \<noteq> []), qParser_hasError = hasError q,
                 defParser_hasError = e,
                 cerr_out = cerr q @ (if stor' \<noteq> [] then [offset_detected] else [])\<rparr>"
    by (auto simp: main_def Let_def DefQueue_empty_def split: sum.splits prod.splits)
  have "no_empty_container []" by (simp add: no_empty_container_def)
  from this h have "no_empty_container stor" by (rule no_empty_container_hashDefects)
  from l this have inv: "no_empty_container stor'" by (rule no_empty_container_query_loop)
  show "exit_status r =
           (if lookupError r \<or> qParser_hasError r \<or> defParser_hasError r then 1 else 0)"
    and "defParser_hasError r = e" and "lookupError r \<longleftrightarrow> residual r \<noteq> []"
    by (simp_all add: r)
  from DefQueue_empty_iff[OF inv]
  show "lookupError r \<longleftrightarrow> (\<exists>c p. queued (residual r) c p \<noteq> [])"
    by (simp add: r DefQueue_empty_def)
  from query_loop_hasError[OF l] show "qParser_hasError r"
    by (simp add: r DefQueryParser_new_def)
qed

text \<open>
  Claim C2 at a clean run: one defect of class X in file f and the one query \<^verbatim>\<open>1,X,f\<close> that
  claims it. The arguments are right and the defect file opens, the defect parser reports
  nothing, the query line is well formed, no query is unmatched and no defect is left in the
  queue (\<open>lookupError\<close> is not set); the error flag of the query parser is set all the same,
  by the \<^verbatim>\<open>parse\<close> that finds the input exhausted, and the exit status is 1.
\<close>

theorem C2_clean_run_exits_nonzero:
  "main id 4 (Some ([defect_at ''X'' ''f'' ''A''], False)) [''1,X,f''] =
     Inr \<lparr>exit_status = 1, linked = [(defect_at ''X'' ''f'' ''A'', 1)], unmatched_rows = [],
          residual = [], lookupError = False, qParser_hasError = True,
          defParser_hasError = False, cerr_out = []\<rparr> \<and>
   split_commas ''1,X,f'' = [''1'', ''X'', ''f''] \<and>
   lexical_cast_int ''1'' = Some 1"
  by code_simp

section \<open>Format recognition and the GCC decoder\<close>

lemma ptree_find_None_iff: "ptree_find node key = None \<longleftrightarrow> key \<notin> fst ` set (children node)"
  by (simp add: ptree_find_def map_of_eq_None_iff)

lemma JsonParser_new_nonempty:
  assumes "children root = (k, first) # rest"
  shows "JsonParser_new slnt (Inr root) =
     (let d = \<lparr>decoder = None, defIter = [], defNumber = 0, anyError = False,
                silent = slnt, diagnostics = []\<rparr>
      in case findChildOf root ''defects'' of
           Some node \<Rightarrow> readRoot SimpleTreeDecoder node d
         | None \<Rightarrow>
        (case findChildOf root ''issues'' of
           Some node \<Rightarrow> readRoot CovTreeDecoder node d
         | None \<Rightarrow>
        (case findChildOf root ''runs'' of
           Some node \<Rightarrow> readRoot SarifTreeDecoder node d
         | None \<Rightarrow>
        (case findChildOf root ''comments'' of
           Some node \<Rightarrow> readRoot ShellCheckTreeDecoder node d
         | None \<Rightarrow>
             if ptree_find first ''kind'' \<noteq> None then readRoot GccTreeDecoder root d
             else handleError d))))"
  by (simp add: JsonParser_new_def Let_def assms)

text \<open>
  Claim C3, as amended. For a document root with at least one element the constructor
  selects one decoder by the first marker that matches, in this order: a child named
  \<^verbatim>\<open>defects\<close> (native), \<^verbatim>\<open>issues\<close> (Coverity), \<^verbatim>\<open>runs\<close> (SARIF), \<^verbatim>\<open>comments\<close> (ShellCheck), a
  field \<^verbatim>\<open>kind\<close> of the first element (GCC), and raises no error; when none matches it
  selects no decoder and marks the error.
\<close>

theorem C3_format_sniffer:
  assumes "children root = (k, first) # rest"
  shows "(let d = JsonParser_new slnt (Inr root);
              has = (\<lambda>name. name \<in> fst ` set (children root))
          in (decoder d, anyError d) =
               (if has ''defects'' then (Some SimpleTreeDecoder, False)
                else if has ''issues'' then (Some CovTreeDecoder, False)
                else if has ''runs'' then (Some SarifTreeDecoder, False)
                else if has ''comments'' then (Some ShellCheckTreeDecoder, False)
                else if ''kind'' \<in> fst ` set (children first) then (Some GccTreeDecoder, False)
                else (None, True)))"
proof -
  have has: "(name \<in> fst ` set (children root)) = (findChildOf root name \<noteq> None)" for name
    by (simp add: findChildOf_def ptree_find_None_iff)
  have kind: "(''kind'' \<in> fst ` set (children first)) = (ptree_find first ''kind'' \<noteq> None)"
    by (simp add: ptree_find_None_iff)
  show ?thesis
    unfolding Let_def has kind JsonParser_new_nonempty[OF assms]
    by (cases "findChildOf root ''defects''"; cases "findChildOf root ''issues''";
        cases "findChildOf root ''runs''"; cases "findChildOf root ''comments''";
        cases "ptree_find first ''kind''")
       (simp_all add: readRoot_def handleError_def)
qed

text \<open>A document with \<^verbatim>\<open>comments\<close> first and \<^verbatim>\<open>issues\<close> second: the Coverity decoder wins.\<close>

theorem C3_format_sniffer_witness:
  "children sniff_priority_example =
     (''comments'', json_array []) # [(''issues'', json_array [])] \<and>
   decoder (JsonParser_new False (Inr sniff_priority_example)) = Some CovTreeDecoder \<and>
   anyError (JsonParser_new False (Inr sniff_priority_example)) = False"
  using C3_format_sniffer[of sniff_priority_example "''comments''" "json_array []"
          "[(''issues'', json_array [])]" False]
  by (simp add: sniff_priority_example_def json_object_def Let_def)

text \<open>For the empty document no marker matches, and yet no error is marked.\<close>

theorem C3_empty_root_counterexample:
  "decoder (JsonParser_new False (Inr (json_array []))) = None \<and>
   anyError (JsonParser_new False (Inr (json_array []))) = False \<and>
   children (json_array []) = []"
  by (simp add: JsonParser_new_def json_array_def)

text \<open>
  Claim C7 at the documents without elements (\<^verbatim>\<open>[]\<close>, \<^verbatim>\<open>{}\<close>): the constructor reports no
  error and leaves the decoder pointer null, and \<^verbatim>\<open>getNext\<close> calls \<^verbatim>\<open>readNode\<close> through it.
\<close>

theorem C7_empty_document_null_decoder:
  "JsonParser_hasError (JsonParser_new slnt (Inr (PTree txt []))) = False \<and>
   decoder (JsonParser_new slnt (Inr (PTree txt []))) = None \<and>
   JsonParser_getNext postProc other (JsonParser_new slnt (Inr (PTree txt []))) =
     Inl null_dereference \<and>
   handleFile postProc other slnt (Some (Inr (PTree txt []))) = Inl null_dereference"
  by (simp add: JsonParser_new_def JsonParser_hasError_def JsonParser_getNext.simps
        handleFile_def handleFile_loop.simps)



lemma getNext_Gcc:
  assumes "decoder d = Some GccTreeDecoder"
  shows "JsonParser_getNext postProc other d =
     (case GccTreeDecoder_readNode postProc (defIter d) of
        (None, it) \<Rightarrow> Inr (None, d\<lparr>defIter := it\<rparr>)
      | (Some def, it) \<Rightarrow> Inr (Some def, d\<lparr>defIter := it, defNumber := defNumber d + 1\<rparr>))"
  using assms
  by (simp add: JsonParser_getNext.simps[of postProc other d] readNode_def
           split: prod.splits option.splits)

lemma getNext_ShellCheck:
  assumes "decoder d = Some ShellCheckTreeDecoder"
  shows "JsonParser_getNext postProc other d =
     (case ShellCheckTreeDecoder_readNode postProc (defIter d) of
        (None, it) \<Rightarrow> Inr (None, d\<lparr>defIter := it\<rparr>)
      | (Some def, it) \<Rightarrow> Inr (Some def, d\<lparr>defIter := it, defNumber := defNumber d + 1\<rparr>))"
  using assms
  by (simp add: JsonParser_getNext.simps[of postProc other d] readNode_def
           split: prod.splits option.splits)








text \<open>
  A record whose mandatory field is empty: \<^verbatim>\<open>getNext\<close> returns \<^verbatim>\<open>false\<close>, moves the cursor past
  the record and leaves the error flag alone, whatever follows the record.
\<close>

lemma getNext_Gcc_rejected:
  assumes "decoder d = Some GccTreeDecoder" and "defIter d = n # it"
    and "valueOf_string n ''kind'' [] = []"
  shows "JsonParser_getNext postProc other d = Inr (None, d\<lparr>defIter := it\<rparr>)"
  using assms
  by (simp add: getNext_Gcc GccTreeDecoder_readNode_def nextNode_def gccReadEvent_def Let_def)

lemma getNext_ShellCheck_rejected:
  assumes "decoder d = Some ShellCheckTreeDecoder" and "defIter d = n # it"
    and "valueOf_string n ''level'' [] = []"
  shows "JsonParser_getNext postProc other d = Inr (None, d\<lparr>defIter := it\<rparr>)"
  using assms
  by (simp add: getNext_ShellCheck ShellCheckTreeDecoder_readNode_def nextNode_def
        scReadEvent_def Let_def)

text \<open>
  Claim C1 at \<^verbatim>\<open>[{"kind":"warning"},{"kind":""},{"kind":"error"}]\<close> and at
  \<^verbatim>\<open>{"comments":[{"level":""},{"level":"warning"}]}\<close>: the record with the empty field yields
  no defect, and \<^verbatim>\<open>getNext\<close> returns \<^verbatim>\<open>false\<close> for it with the next record still under
  the cursor, so the loop of \<^verbatim>\<open>handleFile\<close> stops there: the records after it are never
  yielded, and no error is marked.
\<close>

theorem C1_empty_kind_ends_decoding:
  "handleFile id other_undecoded False (Some (Inr gcc_empty_kind_example)) =
     Inr ([\<lparr>defClass = ''COMPILER_WARNING'',
            events =
              [\<lparr>fileName = ''<unknown>'', line = 0, column = 0, event = ''warning'',
                 msg = ''<unknown>''\<rparr>],
            cwe = 0\<rparr>],
          True) \<and>
   JsonParser_getNext id other_undecoded
       \<lparr>decoder = Some GccTreeDecoder,
          defIter = [json_object [(''kind'', json_leaf [])],
                     json_object [(''kind'', json_leaf ''error'')]],
          defNumber = 1, anyError = False, silent = False, diagnostics = []\<rparr> =
     Inr (None,
          \<lparr>decoder = Some GccTreeDecoder,
             defIter = [json_object [(''kind'', json_leaf ''error'')]],
             defNumber = 1, anyError = False, silent = False, diagnostics = []\<rparr>) \<and>
   handleFile id other_undecoded False (Some (Inr sc_empty_level_example)) = Inr ([], True)"
  by code_simp

end
